theory Spec2Isabelle
  imports Complex_Main
begin

section \<open>JavaScript strings and regular expressions\<close>

text \<open>
  A JavaScript string is a sequence of UTF-16 code units. A code unit is modelled by its
  number; every real string is a list of numbers below 65536, so a statement about all
  lists covers all strings. Literals of the source are ASCII and written with \<open>str\<close>.
\<close>

type_synonym code_unit = nat
type_synonym jsstring = "code_unit list"

definition str :: "string \<Rightarrow> jsstring" where
  "str s = map of_char s"

text \<open>
  The class \<open>\s\<close> of a regular expression and the characters removed by
  \<open>String.prototype.trim\<close> are the same set: WhiteSpace and LineTerminator of ECMAScript
  (TAB, LF, VT, FF, CR, SP, NBSP, U+1680, U+2000..U+200A, LS, PS, U+202F, U+205F, U+3000,
  BOM).
\<close>

definition isWhiteSpace :: "code_unit \<Rightarrow> bool" where
  "isWhiteSpace c \<longleftrightarrow>
     c = 0x09 \<or> c = 0x0A \<or> c = 0x0B \<or> c = 0x0C \<or> c = 0x0D \<or> c = 0x20 \<or> c = 0xA0 \<or>
     c = 0x1680 \<or> (0x2000 \<le> c \<and> c \<le> 0x200A) \<or> c = 0x2028 \<or> c = 0x2029 \<or>
     c = 0x202F \<or> c = 0x205F \<or> c = 0x3000 \<or> c = 0xFEFF"

text \<open>The word characters of \<open>\b\<close> (no unicode flag): \<open>[A-Za-z0-9_]\<close>.\<close>

definition isWordChar :: "code_unit \<Rightarrow> bool" where
  "isWordChar c \<longleftrightarrow>
     (0x61 \<le> c \<and> c \<le> 0x7A) \<or> (0x41 \<le> c \<and> c \<le> 0x5A) \<or> (0x30 \<le> c \<and> c \<le> 0x39) \<or> c = 0x5F"

text \<open>
  Canonicalize of ECMAScript for the flag \<open>i\<close> without \<open>u\<close>: a code unit is replaced by
  its upper case, except that a code unit outside ASCII is never mapped into ASCII. All
  pattern characters of this program are ASCII, so only the ASCII part decides a
  comparison with a pattern character; outside ASCII the model leaves the code unit as
  it is.
\<close>

definition canonicalize :: "code_unit \<Rightarrow> code_unit" where
  "canonicalize c = (if 0x61 \<le> c \<and> c \<le> 0x7A then c - 0x20 else c)"

definition char_eq :: "bool \<Rightarrow> code_unit \<Rightarrow> code_unit \<Rightarrow> bool" where
  "char_eq ic c x = (if ic then canonicalize x = canonicalize c else x = c)"

datatype char_class = ClassSpace | ClassAny

fun in_class :: "char_class \<Rightarrow> code_unit \<Rightarrow> bool" where
  "in_class ClassSpace x = isWhiteSpace x"
| "in_class ClassAny x = True"

text \<open>
  The pieces the regular expressions of the program are built from, in sequence:
  a literal character, \<open>\b\<close>, \<open>\s*\<close> and \<open>\s+\<close> (greedy), \<open>[\s\S]*?\<close> (lazy), an optional
  non-capturing group of literal alternatives \<open>(?:a|b)?\<close> (which is also \<open>c?\<close>), and the
  two parentheses of capture group 1.
\<close>

datatype item =
    Lit code_unit
  | WordB
  | Star char_class
  | Plus char_class
  | LazyStar char_class
  | OptLit "jsstring list"
  | GroupOpen
  | GroupClose

fun starts_with :: "bool \<Rightarrow> jsstring \<Rightarrow> jsstring \<Rightarrow> bool" where
  "starts_with ic [] s = True"
| "starts_with ic (c # cs) [] = False"
| "starts_with ic (c # cs) (x # xs) = (char_eq ic c x \<and> starts_with ic cs xs)"

definition word_at :: "code_unit option \<Rightarrow> bool" where
  "word_at c = (case c of None \<Rightarrow> False | Some x \<Rightarrow> isWordChar x)"

fun head :: "jsstring \<Rightarrow> code_unit option" where
  "head [] = None"
| "head (x # xs) = Some x"

text \<open>
  The backtracking matcher: \<open>rmatch ic items prev s opn cap\<close> matches the sequence
  \<open>items\<close> at the front of \<open>s\<close>, where \<open>prev\<close> is the character before \<open>s\<close> in the whole
  input (for \<open>\b\<close>), \<open>opn\<close> the input left when capture group 1 opened and \<open>cap\<close> its
  captured text. The alternatives are tried in the order of ECMAScript: a greedy
  quantifier takes the longer match first, a lazy one the shorter. The result is
  \<open>None\<close> when no alternative matches, and the capture of the first one that does.
\<close>

fun item_size :: "item \<Rightarrow> nat" where
  "item_size (OptLit alts) = Suc (length alts)"
| "item_size _ = 1"

function rmatch :: "bool \<Rightarrow> item list \<Rightarrow> code_unit option \<Rightarrow> jsstring \<Rightarrow> jsstring option
    \<Rightarrow> jsstring option \<Rightarrow> jsstring option option" where
  "rmatch ic [] prev s opn cap = Some cap"
| "rmatch ic (Lit c # rs) prev [] opn cap = None"
| "rmatch ic (Lit c # rs) prev (x # xs) opn cap =
     (if char_eq ic c x then rmatch ic rs (Some x) xs opn cap else None)"
| "rmatch ic (WordB # rs) prev s opn cap =
     (if word_at prev \<noteq> word_at (head s) then rmatch ic rs prev s opn cap else None)"
| "rmatch ic (Star k # rs) prev [] opn cap = rmatch ic rs prev [] opn cap"
| "rmatch ic (Star k # rs) prev (x # xs) opn cap =
     (if in_class k x then
        (case rmatch ic (Star k # rs) (Some x) xs opn cap of
           Some r \<Rightarrow> Some r
         | None \<Rightarrow> rmatch ic rs prev (x # xs) opn cap)
      else rmatch ic rs prev (x # xs) opn cap)"
| "rmatch ic (Plus k # rs) prev [] opn cap = None"
| "rmatch ic (Plus k # rs) prev (x # xs) opn cap =
     (if in_class k x then rmatch ic (Star k # rs) (Some x) xs opn cap else None)"
| "rmatch ic (LazyStar k # rs) prev [] opn cap = rmatch ic rs prev [] opn cap"
| "rmatch ic (LazyStar k # rs) prev (x # xs) opn cap =
     (case rmatch ic rs prev (x # xs) opn cap of
        Some r \<Rightarrow> Some r
      | None \<Rightarrow>
          (if in_class k x then rmatch ic (LazyStar k # rs) (Some x) xs opn cap else None))"
| "rmatch ic (OptLit [] # rs) prev s opn cap = rmatch ic rs prev s opn cap"
| "rmatch ic (OptLit (a # as) # rs) prev s opn cap =
     (case (if a \<noteq> [] \<and> starts_with ic a s
            then rmatch ic rs (Some (last (take (length a) s))) (drop (length a) s) opn cap
            else None) of
        Some r \<Rightarrow> Some r
      | None \<Rightarrow> rmatch ic (OptLit as # rs) prev s opn cap)"
| "rmatch ic (GroupOpen # rs) prev s opn cap = rmatch ic rs prev s (Some s) cap"
| "rmatch ic (GroupClose # rs) prev s opn cap =
     rmatch ic rs prev s opn
       (case opn of None \<Rightarrow> None | Some so \<Rightarrow> Some (take (length so - length s) so))"
  by pat_completeness auto
termination
  by (relation "measures [\<lambda>(ic, r, prev, s, opn, cap). length s,
                          \<lambda>(ic, r, prev, s, opn, cap). sum_list (map item_size r)]") auto

text \<open>
  \<open>RegExp.prototype.exec\<close> of a regular expression without the flags \<open>g\<close> and \<open>y\<close>: the
  start positions are tried from the left, and the first position with a match wins.
\<close>

fun exec_from :: "bool \<Rightarrow> item list \<Rightarrow> code_unit option \<Rightarrow> jsstring \<Rightarrow> jsstring option option" where
  "exec_from ic r prev [] = rmatch ic r prev [] None None"
| "exec_from ic r prev (x # xs) =
     (case rmatch ic r prev (x # xs) None None of
        Some c \<Rightarrow> Some c
      | None \<Rightarrow> exec_from ic r (Some x) xs)"

record regexp =
  source :: jsstring
  ignoreCase :: bool
  items :: "item list"

definition regexp_exec :: "regexp \<Rightarrow> jsstring \<Rightarrow> jsstring option option" where
  "regexp_exec p s = exec_from (ignoreCase p) (items p) None s"

definition regexp_test :: "regexp \<Rightarrow> jsstring \<Rightarrow> bool" where
  "regexp_test p s \<longleftrightarrow> regexp_exec p s \<noteq> None"

definition lits :: "string \<Rightarrow> item list" where
  "lits s = map Lit (str s)"


text \<open>\<open>String.prototype.includes\<close>: the text occurs at some position.\<close>

fun includes_js :: "jsstring \<Rightarrow> jsstring \<Rightarrow> bool" where
  "includes_js [] t = (t = [])"
| "includes_js (x # xs) t = (starts_with False t (x # xs) \<or> includes_js xs t)"

text \<open>\<open>String.prototype.trim\<close>: white space is removed at both ends.\<close>

definition trim :: "jsstring \<Rightarrow> jsstring" where
  "trim s = rev (dropWhile isWhiteSpace (rev (dropWhile isWhiteSpace s)))"

section \<open>The validator (sandbox.js)\<close>

text \<open>
  The deny list, in the order of the source. Each entry carries the text between the
  slashes (\<open>pattern.source\<close>, with \<open>bs\<close> for the backslash), the flag \<open>i\<close> and the parsed
  sequence.
\<close>

definition bs :: string where
  "bs = [CHR 0x5C]"

definition call_source :: "string \<Rightarrow> string \<Rightarrow> jsstring" where
  "call_source w c = str (bs @ ''b'' @ w @ bs @ ''s*'' @ bs @ c)"

definition word_source :: "string \<Rightarrow> jsstring" where
  "word_source w = str (bs @ ''b'' @ w @ bs @ ''b'')"

definition FORBIDDEN_PATTERNS :: "regexp list" where
  "FORBIDDEN_PATTERNS = [
     \<lparr>source = call_source ''fetch'' ''('', ignoreCase = True,
      items = WordB # lits ''fetch'' @ [Star ClassSpace, Lit 0x28]\<rparr>,
     \<lparr>source = call_source ''eval'' ''('', ignoreCase = True,
      items = WordB # lits ''eval'' @ [Star ClassSpace, Lit 0x28]\<rparr>,
     \<lparr>source = call_source ''Function'' ''('', ignoreCase = True,
      items = WordB # lits ''Function'' @ [Star ClassSpace, Lit 0x28]\<rparr>,
     \<lparr>source = call_source ''document'' ''.'', ignoreCase = True,
      items = WordB # lits ''document'' @ [Star ClassSpace, Lit 0x2E]\<rparr>,
     \<lparr>source = call_source ''window'' ''.'', ignoreCase = True,
      items = WordB # lits ''window'' @ [Star ClassSpace, Lit 0x2E]\<rparr>,
     \<lparr>source = str (bs @ ''bimport'' @ bs @ ''s+''), ignoreCase = True,
      items = WordB # lits ''import'' @ [Plus ClassSpace]\<rparr>,
     \<lparr>source = call_source ''require'' ''('', ignoreCase = True,
      items = WordB # lits ''require'' @ [Star ClassSpace, Lit 0x28]\<rparr>,
     \<lparr>source = word_source ''localStorage'', ignoreCase = True,
      items = WordB # lits ''localStorage'' @ [WordB]\<rparr>,
     \<lparr>source = word_source ''sessionStorage'', ignoreCase = True,
      items = WordB # lits ''sessionStorage'' @ [WordB]\<rparr>,
     \<lparr>source = word_source ''cookie'', ignoreCase = True,
      items = WordB # lits ''cookie'' @ [WordB]\<rparr>,
     \<lparr>source = word_source ''XMLHttpRequest'', ignoreCase = True,
      items = WordB # lits ''XMLHttpRequest'' @ [WordB]\<rparr>,
     \<lparr>source = word_source ''WebSocket'', ignoreCase = True,
      items = WordB # lits ''WebSocket'' @ [WordB]\<rparr>,
     \<lparr>source = word_source ''worker'', ignoreCase = True,
      items = WordB # lits ''worker'' @ [WordB]\<rparr>,
     \<lparr>source = call_source ''setTimeout'' ''('', ignoreCase = True,
      items = WordB # lits ''setTimeout'' @ [Star ClassSpace, Lit 0x28]\<rparr>,
     \<lparr>source = call_source ''setInterval'' ''('', ignoreCase = True,
      items = WordB # lits ''setInterval'' @ [Star ClassSpace, Lit 0x28]\<rparr>,
     \<lparr>source = word_source ''__proto__'', ignoreCase = True,
      items = WordB # lits ''__proto__'' @ [WordB]\<rparr>,
     \<lparr>source = word_source ''prototype'', ignoreCase = True,
      items = WordB # lits ''prototype'' @ [WordB]\<rparr>,
     \<lparr>source = call_source ''constructor'' ''['', ignoreCase = True,
      items = WordB # lits ''constructor'' @ [Star ClassSpace, Lit 0x5B]\<rparr>
   ]"

record validation =
  valid :: bool
  error :: "jsstring option"

definition security_violation :: "regexp \<Rightarrow> jsstring" where
  "security_violation pattern =
     str ''Security violation: Forbidden pattern detected ('' @ source pattern @ str '')''"

definition structural_error :: jsstring where
  \<open>structural_error = str ''Code must contain a "function createObject()" definition''\<close>

text \<open>The loop of \<open>validateCode\<close> over the patterns: the first one that matches returns.\<close>

fun scan_patterns :: "regexp list \<Rightarrow> jsstring \<Rightarrow> validation option" where
  "scan_patterns [] code = None"
| "scan_patterns (pattern # ps) code =
     (if regexp_test pattern code
      then Some \<lparr>valid = False, error = Some (security_violation pattern)\<rparr>
      else scan_patterns ps code)"

definition validateCode :: "jsstring \<Rightarrow> validation" where
  "validateCode code =
     (case scan_patterns FORBIDDEN_PATTERNS code of
        Some r \<Rightarrow> r
      | None \<Rightarrow>
          if \<not> includes_js code (str ''function createObject'')
          then \<lparr>valid = False, error = Some structural_error\<rparr>
          else \<lparr>valid = True, error = None\<rparr>)"

section \<open>The extractor (sandbox.js)\<close>

text \<open>
  The regular expression of \<open>cleanCode\<close>, without flags: three backticks, the optional
  group \<open>(?:javascript|js)?\<close>, the optional line feed \<open>\n?\<close>, capture group 1 around the
  lazy \<open>[\s\S]*?\<close>, and three backticks.
\<close>

definition code_block_regexp :: regexp where
  "code_block_regexp =
     \<lparr>source = str (''```(?:javascript|js)?'' @ bs @ ''n?(['' @ bs @ ''s'' @ bs @ ''S]*?)```''),
      ignoreCase = False,
      items = lits ''```'' @ [OptLit [str ''javascript'', str ''js''], OptLit [[0x0A]],
                GroupOpen, LazyStar ClassAny, GroupClose] @ lits ''```''\<rparr>"

text \<open>
  \<open>cleanCode\<close>: when the expression matches, the text is replaced by capture group 1
  (which always takes part in a match of this expression); then it is trimmed.
\<close>

definition cleanCode :: "jsstring \<Rightarrow> jsstring" where
  "cleanCode rawCode =
     (let code = (case regexp_exec code_block_regexp rawCode of
                    Some (Some g) \<Rightarrow> g
                  | _ \<Rightarrow> rawCode)
      in trim code)"


section \<open>Scene nodes (viewer.js) and the export scenes (exporters.js)\<close>

text \<open>
  A scene node with the properties the exporters read. A property that an object does
  not have reads as \<open>undefined\<close>, which is false in a condition. The property \<open>material\<close>
  is absent, one material (of which only \<open>isShadowMaterial\<close> is read) or an array of
  materials (an array has no property \<open>isShadowMaterial\<close>).
\<close>

datatype material_prop = NoMaterial | Material (mat_isShadowMaterial: bool) | MaterialArray

record object3d =
  isGridHelper :: bool
  isLight :: bool
  isShadowMaterial :: bool
  material :: material_prop
  isMesh :: bool
  isGroup :: bool

definition material_is_shadow :: "object3d \<Rightarrow> bool" where
  "material_is_shadow child =
     (case material child of NoMaterial \<Rightarrow> False | Material sh \<Rightarrow> sh | MaterialArray \<Rightarrow> False)"

text \<open>\<open>child.clone()\<close> copies the node; the copy has the same properties.\<close>

definition clone :: "object3d \<Rightarrow> object3d" where
  "clone child = child"

text \<open>
  The body of the \<open>forEach\<close> of \<open>exportGLTF\<close> for one child: the nodes added to the export
  scene by this child.
\<close>

definition exportGLTF_child :: "object3d \<Rightarrow> object3d list" where
  "exportGLTF_child child =
     (if isGridHelper child \<or> isLight child \<or> isShadowMaterial child then []
      else if material_is_shadow child then []
      else if isMesh child \<or> isGroup child then [clone child]
      else [])"

definition exportGLTF_scene :: "object3d list \<Rightarrow> object3d list" where
  "exportGLTF_scene children = concat (map exportGLTF_child children)"

definition exportOBJ_child :: "object3d \<Rightarrow> object3d list" where
  "exportOBJ_child child =
     (if isGridHelper child \<or> isLight child then []
      else if material_is_shadow child then []
      else if isMesh child \<or> isGroup child then [clone child]
      else [])"

definition exportOBJ_scene :: "object3d list \<Rightarrow> object3d list" where
  "exportOBJ_scene children = concat (map exportOBJ_child children)"

text \<open>
  The nodes that \<open>SceneViewer.setupLighting\<close> and \<open>setupGrid\<close> add to the scene, in this
  order: the ambient light, three directional lights, the grid helper (a line object
  with a line material; whether the library sets \<open>isGridHelper\<close> on it is left open by the
  parameter \<open>g\<close>) and the ground, a mesh with a shadow material.
\<close>

definition Light :: object3d where
  "Light = \<lparr>isGridHelper = False, isLight = True, isShadowMaterial = False,
            material = NoMaterial, isMesh = False, isGroup = False\<rparr>"

definition GridHelper :: "bool \<Rightarrow> object3d" where
  "GridHelper g = \<lparr>isGridHelper = g, isLight = False, isShadowMaterial = False,
                   material = Material False, isMesh = False, isGroup = False\<rparr>"

definition Mesh :: "material_prop \<Rightarrow> object3d" where
  "Mesh m = \<lparr>isGridHelper = False, isLight = False, isShadowMaterial = False,
             material = m, isMesh = True, isGroup = False\<rparr>"

definition Group :: object3d where
  "Group = \<lparr>isGridHelper = False, isLight = False, isShadowMaterial = False,
            material = NoMaterial, isMesh = False, isGroup = True\<rparr>"

definition infrastructure :: "bool \<Rightarrow> object3d list" where
  "infrastructure g = [Light, Light, Light, Light, GridHelper g, Mesh (Material True)]"

section \<open>The executor (sandbox.js)\<close>

text \<open>
  The values the entry point can return, as far as the executor observes them: whether
  the value is falsy (\<open>!result\<close>), whether it is an instance of \<open>THREE.Object3D\<close>, the name
  of its constructor and its \<open>typeof\<close>. The numbers \<open>+0\<close> and \<open>-0\<close> are both \<open>Finite 0\<close>. An
  object that is no \<open>Object3D\<close> carries the name of its constructor, \<open>None\<close> when
  \<open>result.constructor?.name\<close> is undefined or empty.
\<close>

datatype jsnumber = NaN | PosInfinity | NegInfinity | Finite real

datatype jsvalue =
    JSUndefined
  | JSNull
  | JSBoolean bool
  | JSNumber jsnumber
  | JSString jsstring
  | JSBigInt int
  | JSSymbol
  | JSObject3D object3d
  | JSObject "jsstring option"
  | JSFunction "jsstring option"

fun truthy :: "jsvalue \<Rightarrow> bool" where
  "truthy JSUndefined = False"
| "truthy JSNull = False"
| "truthy (JSBoolean b) = b"
| "truthy (JSNumber n) = (n \<noteq> NaN \<and> n \<noteq> Finite 0)"
| "truthy (JSString s) = (s \<noteq> [])"
| "truthy (JSBigInt i) = (i \<noteq> 0)"
| "truthy JSSymbol = True"
| "truthy (JSObject3D n) = True"
| "truthy (JSObject c) = True"
| "truthy (JSFunction c) = True"

fun typeof :: "jsvalue \<Rightarrow> jsstring" where
  "typeof JSUndefined = str ''undefined''"
| "typeof JSNull = str ''object''"
| "typeof (JSBoolean b) = str ''boolean''"
| "typeof (JSNumber n) = str ''number''"
| "typeof (JSString s) = str ''string''"
| "typeof (JSBigInt i) = str ''bigint''"
| "typeof JSSymbol = str ''symbol''"
| "typeof (JSObject3D n) = str ''object''"
| "typeof (JSObject c) = str ''object''"
| "typeof (JSFunction c) = str ''function''"

text \<open>\<open>result.constructor?.name || typeof result\<close>, for a value that is not falsy.\<close>

fun kind_name :: "jsvalue \<Rightarrow> jsstring" where
  "kind_name (JSBoolean b) = str ''Boolean''"
| "kind_name (JSNumber n) = str ''Number''"
| "kind_name (JSString s) = str ''String''"
| "kind_name (JSBigInt i) = str ''BigInt''"
| "kind_name JSSymbol = str ''Symbol''"
| "kind_name (JSObject (Some c)) = (if c = [] then typeof (JSObject (Some c)) else c)"
| "kind_name (JSFunction (Some c)) = (if c = [] then typeof (JSFunction (Some c)) else c)"
| "kind_name v = typeof v"

text \<open>
  What a piece of evaluated code can throw: a value whose \<open>message\<close> is a string (an
  \<open>Error\<close> of any kind), or any other value. What \<open>executeThreeJSCode\<close> throws: an error
  with a message, or the \<open>TypeError\<close> that \<open>error.message.includes\<close> raises in the handler
  when the caught value has no string \<open>message\<close>.
\<close>

datatype thrown = ThrownError jsstring | ThrownOther

datatype exec_error = Error jsstring | TypeError

text \<open>
  The JavaScript engine is a parameter. \<open>newFunction\<close> is the constructor
  \<open>new Function(parameter, body)\<close>, which throws on a body that does not parse;
  \<open>callFunction\<close> calls the function it made with one argument. A function made by the
  \<open>Function\<close> constructor has the global environment as its scope, not the scope of the
  code that made it, so the call is given the global environment \<open>'g\<close> of the page.
\<close>

record ('g, 't, 'f) engine =
  newFunction :: "jsstring \<Rightarrow> jsstring \<Rightarrow> thrown + 'f"
  callFunction :: "'f \<Rightarrow> 'g \<Rightarrow> 't \<Rightarrow> thrown + jsvalue"

datatype event = NewFunction jsstring jsstring | Call

definition nl :: string where
  "nl = [CHR 0x0A]"

definition function_body :: "jsstring \<Rightarrow> jsstring" where
  \<open>function_body codeString =
     str (nl @ ''            "use strict";'' @ nl @ ''            '') @ codeString @
     str (nl @ ''            if (typeof createObject !== 'function') {'' @
          nl @ ''                throw new Error('createObject function not found');'' @
          nl @ ''            }'' @
          nl @ ''            return createObject();'' @
          nl @ ''        '')\<close>

text \<open>The \<open>catch\<close> block.\<close>

definition catch_block :: "thrown \<Rightarrow> exec_error" where
  "catch_block err =
     (case err of
        ThrownOther \<Rightarrow> TypeError
      | ThrownError message \<Rightarrow>
          if includes_js message (str ''Security violation'') then Error message
          else Error (str ''Code execution failed: '' @ message))"

text \<open>
  \<open>executeThreeJSCode\<close> returns what it throws or the node it returns, together with the
  calls it made to the engine.
\<close>

definition executeThreeJSCode ::
    "('g, 't, 'f) engine \<Rightarrow> 'g \<Rightarrow> 't \<Rightarrow> jsstring \<Rightarrow> (exec_error + object3d) \<times> event list" where
  "executeThreeJSCode eng globals THREE codeString =
     (let validation = validateCode codeString in
      if \<not> valid validation then
        (Inl (Error (case error validation of Some e \<Rightarrow> e | None \<Rightarrow> str ''null'')), [])
      else
        let body = function_body codeString in
        case newFunction eng (str ''THREE'') body of
          Inl err \<Rightarrow> (Inl (catch_block err), [NewFunction (str ''THREE'') body])
        | Inr createObjectFn \<Rightarrow>
            let trace = [NewFunction (str ''THREE'') body, Call] in
            (case callFunction eng createObjectFn globals THREE of
               Inl err \<Rightarrow> (Inl (catch_block err), trace)
             | Inr result \<Rightarrow>
                 if \<not> truthy result then
                   (Inl (catch_block (ThrownError
                      (str ''createObject() returned null or undefined''))), trace)
                 else
                   (case result of
                      JSObject3D node \<Rightarrow> (Inr node, trace)
                    | _ \<Rightarrow>
                        (Inl (catch_block (ThrownError
                           (str ''Expected THREE.Object3D but got '' @ kind_name result))),
                         trace))))"


text \<open>An engine on which every body parses and every call returns the value \<open>v\<close>.\<close>

definition returning :: "jsvalue \<Rightarrow> (unit, unit, unit) engine" where
  "returning v = \<lparr>newFunction = (\<lambda>p b. Inr ()), callFunction = (\<lambda>f g t. Inr v)\<rparr>"

section \<open>Notions used to state the properties\<close>

text \<open>The rule that fires: the first pattern of the deny list that matches.\<close>

definition fired :: "jsstring \<Rightarrow> regexp option" where
  "fired code = find (\<lambda>pattern. regexp_test pattern code) FORBIDDEN_PATTERNS"

definition deny_listed :: "jsstring \<Rightarrow> bool" where
  "deny_listed code = list_ex (\<lambda>pattern. regexp_test pattern code) FORBIDDEN_PATTERNS"

definition security_rejection :: "validation \<Rightarrow> bool" where
  "security_rejection r \<longleftrightarrow>
     \<not> valid r \<and> error r \<in> Some ` security_violation ` set FORBIDDEN_PATTERNS"

text \<open>The fence: three backticks.\<close>

definition fence :: jsstring where
  "fence = [0x60, 0x60, 0x60]"

text \<open>The text after the first fence of a string, and the text before it.\<close>

fun after_fence :: "jsstring \<Rightarrow> jsstring option" where
  "after_fence [] = None"
| "after_fence (x # xs) =
     (if starts_with False fence (x # xs) then Some (drop 3 (x # xs)) else after_fence xs)"

fun before_fence :: "jsstring \<Rightarrow> jsstring option" where
  "before_fence [] = None"
| "before_fence (x # xs) =
     (if starts_with False fence (x # xs) then Some []
      else map_option ((#) x) (before_fence xs))"

definition skip_tag :: "jsstring \<Rightarrow> jsstring" where
  "skip_tag r =
     (if starts_with False (str ''javascript'') r then drop 10 r
      else if starts_with False (str ''js'') r then drop 2 r
      else r)"

fun skip_newline :: "jsstring \<Rightarrow> jsstring" where
  "skip_newline [] = []"
| "skip_newline (x # xs) = (if x = 0x0A then xs else x # xs)"

text \<open>
  The text that \<open>cleanCode\<close> takes out of a fenced block: after the first fence, the tag
  \<open>javascript\<close> or \<open>js\<close> and then one line feed are skipped when present, and the text
  runs up to the next fence. \<open>None\<close> when there is no first fence or no next one.
\<close>

definition fenced_inner :: "jsstring \<Rightarrow> jsstring option" where
  "fenced_inner s =
     (case after_fence s of
        None \<Rightarrow> None
      | Some r \<Rightarrow> before_fence (skip_newline (skip_tag r)))"

text \<open>
  The specification's words for the same: a block delimited by a triple-backtick marker,
  optionally tagged with a language hint. The hint is taken to be the run of word
  characters that follows the opening marker, whatever language it names.
\<close>

definition spec_fenced_inner :: "jsstring \<Rightarrow> jsstring option" where
  "spec_fenced_inner s =
     (case after_fence s of
        None \<Rightarrow> None
      | Some r \<Rightarrow> before_fence (skip_newline (dropWhile isWordChar r)))"

definition spec_cleanCode :: "jsstring \<Rightarrow> jsstring" where
  "spec_cleanCode s = trim (case spec_fenced_inner s of None \<Rightarrow> s | Some inner \<Rightarrow> inner)"

text \<open>
  The specification's words for the structural requirement: the text contains a
  definition of a function named \<open>createObject\<close> that takes no parameters, that is the
  keyword \<open>function\<close>, white space, the name, and an empty parameter list.
\<close>

definition spec_entry_point_definition :: regexp where
  "spec_entry_point_definition =
     \<lparr>source = str (bs @ ''bfunction'' @ bs @ ''s+createObject'' @ bs @ ''s*'' @ bs @ ''(''
                      @ bs @ ''s*'' @ bs @ '')''),
      ignoreCase = False,
      items = WordB # lits ''function'' @ [Plus ClassSpace] @ lits ''createObject'' @
              [Star ClassSpace, Lit 0x28, Star ClassSpace, Lit 0x29]\<rparr>"

definition spec_defines_entry_point :: "jsstring \<Rightarrow> bool" where
  "spec_defines_entry_point code = regexp_test spec_entry_point_definition code"

text \<open>
  A word in any casing: the same letters as \<open>w\<close> up to the case of ASCII letters. A text
  stands as a word of its own between \<open>pre\<close> and \<open>post\<close> when no word character touches it.
\<close>

definition same_word :: "jsstring \<Rightarrow> jsstring \<Rightarrow> bool" where
  "same_word v w \<longleftrightarrow> map canonicalize v = map canonicalize w"

definition ends_word :: "jsstring \<Rightarrow> bool" where
  "ends_word pre \<longleftrightarrow> pre \<noteq> [] \<and> isWordChar (last pre)"

definition begins_word :: "jsstring \<Rightarrow> bool" where
  "begins_word post \<longleftrightarrow> word_at (head post)"


text \<open>
  A user node as the library constructs it: a group, or a mesh whose material is not a
  shadow material.
\<close>

definition user_node :: "object3d \<Rightarrow> bool" where
  "user_node u \<longleftrightarrow> u = Group \<or> (u = Mesh (material u) \<and> \<not> material_is_shadow u)"

section \<open>Properties of the validator\<close>

text \<open>Facts for evaluating the patterns on a concrete text.\<close>

lemmas pattern_defs = FORBIDDEN_PATTERNS_def call_source_def word_source_def bs_def lits_def str_def

lemmas regexp_defs = regexp_test_def regexp_exec_def char_eq_def canonicalize_def isWordChar_def
  isWhiteSpace_def word_at_def

text \<open>The loop returns at the first pattern that matches; \<open>validateCode\<close> by cases.\<close>

lemma scan_patterns_find:
  "scan_patterns ps code =
     map_option (\<lambda>p. \<lparr>valid = False, error = Some (security_violation p)\<rparr>)
       (find (\<lambda>p. regexp_test p code) ps)"
  by (induction ps) auto

lemma validateCode_fired:
  "validateCode code =
     (case fired code of
        Some p \<Rightarrow> \<lparr>valid = False, error = Some (security_violation p)\<rparr>
      | None \<Rightarrow>
          if includes_js code (str ''function createObject'')
          then \<lparr>valid = True, error = None\<rparr>
          else \<lparr>valid = False, error = Some structural_error\<rparr>)"
  by (simp add: validateCode_def fired_def scan_patterns_find split: option.splits)

lemma fired_None_iff: "fired code = None \<longleftrightarrow> \<not> deny_listed code"
  by (auto simp: fired_def deny_listed_def find_None_iff list_ex_iff)

lemma fired_SomeD:
  "fired code = Some p \<Longrightarrow> p \<in> set FORBIDDEN_PATTERNS \<and> regexp_test p code"
  by (auto simp: fired_def find_Some_iff)

text \<open>
  The reasons: the sources of the patterns are pairwise distinct, and the structural
  reason is none of the security reasons.
\<close>

lemma distinct_sources: "distinct (map source FORBIDDEN_PATTERNS)"
  by (simp add: pattern_defs)

lemma security_violation_inj:
  "security_violation p = security_violation q \<longleftrightarrow> source p = source q"
  by (simp add: security_violation_def)

lemma structural_not_security: "structural_error \<noteq> security_violation p"
  by (simp add: structural_error_def security_violation_def str_def)

lemma deny_listed_security_rejection:
  assumes "deny_listed code"
  shows "security_rejection (validateCode code)"
proof -
  from assms obtain p where p: "fired code = Some p"
    using fired_None_iff by (cases "fired code") auto
  with fired_SomeD[OF p] show ?thesis
    by (simp add: validateCode_fired security_rejection_def)
qed

lemma pattern_matches_deny_listed:
  "p \<in> set FORBIDDEN_PATTERNS \<Longrightarrow> regexp_test p code \<Longrightarrow> deny_listed code"
  by (auto simp: deny_listed_def list_ex_iff)

text \<open>A match at some position of the text is found by the search from the left.\<close>

lemma exec_from_start: "rmatch ic r prev s None None \<noteq> None \<Longrightarrow> exec_from ic r prev s \<noteq> None"
  by (cases s) (auto split: option.splits)

lemma exec_from_prefix:
  "rmatch ic r (if pre = [] then prev else Some (last pre)) s None None \<noteq> None
   \<Longrightarrow> exec_from ic r prev (pre @ s) \<noteq> None"
proof (induction pre arbitrary: prev)
  case Nil
  then show ?case by (simp add: exec_from_start)
next
  case (Cons x pre)
  have "exec_from ic r (Some x) (pre @ s) \<noteq> None"
    by (rule Cons.IH) (use Cons.prems in \<open>simp split: if_splits\<close>)
  then show ?case by (auto split: option.splits)
qed

lemma word_at_before: "word_at (if pre = [] then None else Some (last pre)) = ends_word pre"
  by (simp add: word_at_def ends_word_def)

lemma function_token_matches:
  "\<not> word_at prev \<Longrightarrow>
   rmatch True (WordB # lits ''Function'' @ [Star ClassSpace, Lit 0x28]) prev
     (str ''function ('' @ post) None None \<noteq> None"
  by (simp add: lits_def str_def char_eq_def canonicalize_def isWordChar_def word_at_def isWhiteSpace_def)

lemma canonicalize_word: "canonicalize x = canonicalize c \<Longrightarrow> isWordChar x = isWordChar c"
  unfolding canonicalize_def isWordChar_def by (auto split: if_splits)

lemma rmatch_lits_any_case:
  "map canonicalize v = map canonicalize w \<Longrightarrow> w \<noteq> [] \<Longrightarrow>
   rmatch True (map Lit w @ rs) prev (v @ t) opn cap = rmatch True rs (Some (last v)) t opn cap"
proof (induction w arbitrary: v prev)
  case Nil
  then show ?case by simp
next
  case (Cons c w)
  then obtain x v' where v: "v = x # v'" by (cases v) auto
  with Cons.prems have x: "canonicalize x = canonicalize c" and v': "map canonicalize v' = map canonicalize w"
    by auto
  show ?case
  proof (cases "w = []")
    case True
    with v' have "v' = []" by simp
    with True v x show ?thesis by (simp add: char_eq_def)
  next
    case False
    with v' have "v' \<noteq> []" by auto
    with Cons.IH[OF v' False, of "Some x"] v x show ?thesis by (simp add: char_eq_def)
  qed
qed

lemma source_identifies_rule:
  "p \<in> set FORBIDDEN_PATTERNS \<Longrightarrow> q \<in> set FORBIDDEN_PATTERNS \<Longrightarrow>
   security_violation q = security_violation p \<Longrightarrow> q = p"
  using distinct_sources by (auto simp: security_violation_inj distinct_map inj_on_def)

lemma executeThreeJSCode_rejected:
  "validateCode code = \<lparr>valid = False, error = Some e\<rparr> \<Longrightarrow>
   executeThreeJSCode eng globals THREE code = (Inl (Error e), [])"
  by (simp add: executeThreeJSCode_def)

text \<open>
  Claim C1. A fragment that matches a pattern of the deny list is rejected by
  \<open>validateCode\<close> with the reason of the rule that fired, the first matching pattern; the
  reason names the source of that pattern, which no other pattern of the list shares.
  \<open>executeThreeJSCode\<close> throws an error with this reason and makes no call to the engine:
  the function is neither constructed nor invoked.
\<close>

theorem deny_listed_rejected_before_evaluation:
  assumes "deny_listed code"
  shows "\<exists>rule. fired code = Some rule \<and> rule \<in> set FORBIDDEN_PATTERNS \<and> regexp_test rule code
           \<and> validateCode code = \<lparr>valid = False, error = Some (security_violation rule)\<rparr>
           \<and> (\<forall>q\<in>set FORBIDDEN_PATTERNS. security_violation q = security_violation rule \<longrightarrow> q = rule)
           \<and> executeThreeJSCode eng globals THREE code = (Inl (Error (security_violation rule)), [])"
proof -
  from assms have "fired code \<noteq> None"
    by (simp add: fired_None_iff)
  then obtain rule where f: "fired code = Some rule"
    by auto
  have m: "rule \<in> set FORBIDDEN_PATTERNS" and t: "regexp_test rule code"
    using fired_SomeD[OF f] by simp_all
  have v: "validateCode code = \<lparr>valid = False, error = Some (security_violation rule)\<rparr>"
    by (simp add: validateCode_fired f)
  have u: "\<forall>q\<in>set FORBIDDEN_PATTERNS. security_violation q = security_violation rule \<longrightarrow> q = rule"
  proof (intro ballI impI)
    fix q assume "q \<in> set FORBIDDEN_PATTERNS" "security_violation q = security_violation rule"
    then show "q = rule" by (rule source_identifies_rule[OF m])
  qed
  have e: "executeThreeJSCode eng globals THREE code = (Inl (Error (security_violation rule)), [])"
    by (rule executeThreeJSCode_rejected[OF v])
  show ?thesis
    by (rule exI[of _ rule]) (intro conjI f m t v u e)
qed

theorem deny_listed_rejected_before_evaluation_witness:
  "deny_listed (str ''fetch(u)'') \<and>
   \<not> valid (validateCode (str ''fetch(u)'')) \<and>
   snd (executeThreeJSCode (returning JSNull) () () (str ''fetch(u)'')) = []"
proof -
  have "fired (str ''fetch(u)'') \<noteq> None"
    by (simp add: fired_def pattern_defs regexp_defs)
  then have h: "deny_listed (str ''fetch(u)'')"
    by (simp add: fired_None_iff)
  from deny_listed_rejected_before_evaluation[OF h, of "returning JSNull" "()" "()"]
  obtain rule where v: "validateCode (str ''fetch(u)'') = \<lparr>valid = False, error = Some (security_violation rule)\<rparr>"
    and e: "executeThreeJSCode (returning JSNull) () () (str ''fetch(u)'') = (Inl (Error (security_violation rule)), [])"
    by blast
  have "\<not> valid (validateCode (str ''fetch(u)''))"
    by (simp only: v validation.simps) simp
  moreover have "snd (executeThreeJSCode (returning JSNull) () () (str ''fetch(u)'')) = []"
    by (simp only: e snd_conv)
  ultimately show ?thesis using h by (intro conjI)
qed


text \<open>
  Claim C3, as the code has it. For a fragment that no pattern of the deny list matches,
  \<open>validateCode\<close> accepts exactly when the fragment contains the text
  \<open>function createObject\<close>; what follows the name (more letters, a parameter list) is
  not looked at. Without this text the result is the rejection with the structural
  reason, which differs from the reason of every pattern.
\<close>

theorem structural_requirement_is_substring:
  assumes "\<not> deny_listed code"
  shows "(valid (validateCode code) \<longleftrightarrow> includes_js code (str ''function createObject''))
       \<and> (\<not> includes_js code (str ''function createObject'') \<longrightarrow>
            validateCode code = \<lparr>valid = False, error = Some structural_error\<rparr>)
       \<and> (\<forall>p. structural_error \<noteq> security_violation p)"
proof -
  from assms have "fired code = None" by (simp add: fired_None_iff)
  then show ?thesis by (simp add: validateCode_fired structural_not_security)
qed

theorem structural_requirement_is_substring_witness:
  "\<not> deny_listed (str ''function createObject(r) {}'') \<and>
   valid (validateCode (str ''function createObject(r) {}'')) \<and>
   \<not> deny_listed (str ''function  createObject() {}'') \<and>
   validateCode (str ''function  createObject() {}'') = \<lparr>valid = False, error = Some structural_error\<rparr>"
proof -
  have "fired (str ''function createObject(r) {}'') = None"
    by (simp add: fired_def pattern_defs regexp_defs)
  then have h1: "\<not> deny_listed (str ''function createObject(r) {}'')"
    by (simp add: fired_None_iff)
  have "fired (str ''function  createObject() {}'') = None"
    by (simp add: fired_def pattern_defs regexp_defs)
  then have h2: "\<not> deny_listed (str ''function  createObject() {}'')"
    by (simp add: fired_None_iff)
  have i1: "includes_js (str ''function createObject(r) {}'') (str ''function createObject'')"
    by (simp add: str_def char_eq_def)
  have i2: "\<not> includes_js (str ''function  createObject() {}'') (str ''function createObject'')"
    by (simp add: str_def char_eq_def)
  have v1: "valid (validateCode (str ''function createObject(r) {}''))"
    using structural_requirement_is_substring[OF h1] i1 by (elim conjE) (simp only:)
  have v2: "validateCode (str ''function  createObject() {}'') = \<lparr>valid = False, error = Some structural_error\<rparr>"
    using structural_requirement_is_substring[OF h2, THEN conjunct2, THEN conjunct1] i2 by (rule mp)
  show ?thesis
    by (intro conjI h1 v1 h2 v2)
qed

text \<open>
  Claim C3 as stated fails: the fragment below is accepted, and it contains no definition
  of a function named \<open>createObject\<close>, only one of \<open>createObjectX\<close>.
\<close>

theorem entry_point_definition_counterexample:
  "\<not> deny_listed (str ''function createObjectX() {}'') \<and>
   valid (validateCode (str ''function createObjectX() {}'')) \<and>
   \<not> spec_defines_entry_point (str ''function createObjectX() {}'')"
proof -
  have f: "fired (str ''function createObjectX() {}'') = None"
    by (simp add: fired_def pattern_defs regexp_defs)
  then have d: "\<not> deny_listed (str ''function createObjectX() {}'')"
    by (simp add: fired_None_iff)
  have i: "includes_js (str ''function createObjectX() {}'') (str ''function createObject'')"
    by (simp add: str_def char_eq_def)
  have v: "valid (validateCode (str ''function createObjectX() {}''))"
    by (simp add: validateCode_fired f i)
  have s: "\<not> spec_defines_entry_point (str ''function createObjectX() {}'')"
    by (simp add: spec_defines_entry_point_def spec_entry_point_definition_def lits_def str_def regexp_defs)
  show ?thesis
    by (intro conjI d v s)
qed


lemma validateCode_invalid_reason:
  "\<not> valid (validateCode code) \<Longrightarrow> \<exists>reason. validateCode code = \<lparr>valid = False, error = Some reason\<rparr>"
  by (simp add: validateCode_fired split: option.splits if_splits)

text \<open>
  Claim C5, as the code has it. \<open>executeThreeJSCode\<close> validates first: on a fragment that
  \<open>validateCode\<close> rejects, for the deny list or for the structural requirement, it throws
  an error with the reason of \<open>validateCode\<close> and makes no call to the engine; on a
  fragment that \<open>validateCode\<close> accepts it goes on to construct the function.
\<close>

theorem executor_validates_first:
  "(\<not> valid (validateCode code) \<longrightarrow>
      (\<exists>reason. error (validateCode code) = Some reason \<and>
         executeThreeJSCode eng globals THREE code = (Inl (Error reason), [])))
   \<and> (valid (validateCode code) \<longrightarrow>
      take 1 (snd (executeThreeJSCode eng globals THREE code))
        = [NewFunction (str ''THREE'') (function_body code)])"
proof (intro conjI impI)
  assume "\<not> valid (validateCode code)"
  then obtain reason where v: "validateCode code = \<lparr>valid = False, error = Some reason\<rparr>"
    using validateCode_invalid_reason by blast
  have r: "error (validateCode code) = Some reason"
    by (simp add: v)
  have e: "executeThreeJSCode eng globals THREE code = (Inl (Error reason), [])"
    by (rule executeThreeJSCode_rejected[OF v])
  show "\<exists>reason. error (validateCode code) = Some reason \<and>
         executeThreeJSCode eng globals THREE code = (Inl (Error reason), [])"
    by (rule exI[of _ reason]) (intro conjI r e)
next
  assume "valid (validateCode code)"
  then show "take 1 (snd (executeThreeJSCode eng globals THREE code))
        = [NewFunction (str ''THREE'') (function_body code)]"
    by (simp add: executeThreeJSCode_def Let_def split: sum.splits jsvalue.splits)
qed

theorem executor_validates_first_witness:
  "\<not> valid (validateCode (str ''let x'')) \<and>
   executeThreeJSCode (returning JSNull) () () (str ''let x'') = (Inl (Error structural_error), []) \<and>
   valid (validateCode (str ''function createObject(){}'')) \<and>
   take 1 (snd (executeThreeJSCode (returning JSNull) () () (str ''function createObject(){}'')))
     = [NewFunction (str ''THREE'') (function_body (str ''function createObject(){}''))]"
proof -
  have f1: "fired (str ''let x'') = None"
    by (simp add: fired_def pattern_defs regexp_defs)
  have v1: "validateCode (str ''let x'') = \<lparr>valid = False, error = Some structural_error\<rparr>"
    by (simp add: validateCode_fired f1) (simp add: str_def char_eq_def)
  have n1: "\<not> valid (validateCode (str ''let x''))"
    by (simp add: v1)
  from executor_validates_first[of "str ''let x''" "returning JSNull" "()" "()", THEN conjunct1, rule_format, OF n1]
  have e1: "executeThreeJSCode (returning JSNull) () () (str ''let x'') = (Inl (Error structural_error), [])"
    by (simp add: v1)
  have f2: "fired (str ''function createObject(){}'') = None"
    by (simp add: fired_def pattern_defs regexp_defs)
  have i2: "includes_js (str ''function createObject(){}'') (str ''function createObject'')"
    by (simp add: str_def char_eq_def)
  have v2: "valid (validateCode (str ''function createObject(){}''))"
    by (simp add: validateCode_fired f2 i2)
  have e2: "take 1 (snd (executeThreeJSCode (returning JSNull) () () (str ''function createObject(){}'')))
     = [NewFunction (str ''THREE'') (function_body (str ''function createObject(){}''))]"
    by (rule executor_validates_first[of "str ''function createObject(){}''" "returning JSNull" "()" "()",
          THEN conjunct2, rule_format, OF v2])
  show ?thesis
    by (intro conjI n1 e1 v2 e2)
qed

text \<open>
  Claim C5 as stated fails: there are inputs on which \<open>executeThreeJSCode\<close> fails with a
  reason of the validator, one of the deny list and the structural one.
\<close>

theorem executor_never_validates_counterexample:
  "error (validateCode (str ''eval(1)'')) = Some (security_violation (FORBIDDEN_PATTERNS ! 1)) \<and>
   fst (executeThreeJSCode (returning JSNull) () () (str ''eval(1)''))
     = Inl (Error (security_violation (FORBIDDEN_PATTERNS ! 1))) \<and>
   error (validateCode (str ''let x'')) = Some structural_error \<and>
   fst (executeThreeJSCode (returning JSNull) () () (str ''let x'')) = Inl (Error structural_error)"
proof -
  have f0: "fired (str ''eval(1)'') = Some (FORBIDDEN_PATTERNS ! 1)"
    by (simp add: fired_def pattern_defs regexp_defs)
  have v0: "validateCode (str ''eval(1)'')
      = \<lparr>valid = False, error = Some (security_violation (FORBIDDEN_PATTERNS ! 1))\<rparr>"
    by (simp add: validateCode_fired f0)
  have f1: "fired (str ''let x'') = None"
    by (simp add: fired_def pattern_defs regexp_defs)
  have v1: "validateCode (str ''let x'') = \<lparr>valid = False, error = Some structural_error\<rparr>"
    by (simp add: validateCode_fired f1) (simp add: str_def char_eq_def)
  show ?thesis
    by (simp add: executeThreeJSCode_rejected[OF v0] executeThreeJSCode_rejected[OF v1] v0 v1)
qed

lemma Function_pattern: "FORBIDDEN_PATTERNS ! 2 =
   \<lparr>source = call_source ''Function'' ''('', ignoreCase = True,
    items = WordB # lits ''Function'' @ [Star ClassSpace, Lit 0x28]\<rparr>"
  by (simp add: FORBIDDEN_PATTERNS_def)

lemma prototype_pattern: "FORBIDDEN_PATTERNS ! 16 =
   \<lparr>source = word_source ''prototype'', ignoreCase = True,
    items = WordB # lits ''prototype'' @ [WordB]\<rparr>"
  by (simp add: FORBIDDEN_PATTERNS_def)

lemma length_FORBIDDEN_PATTERNS: "length FORBIDDEN_PATTERNS = 18"
  by (simp add: FORBIDDEN_PATTERNS_def)

lemma function_token_test:
  assumes "\<not> ends_word pre"
  shows "regexp_test (FORBIDDEN_PATTERNS ! 2) (pre @ str ''function ('' @ post)"
proof -
  have "\<not> word_at (if pre = [] then None else Some (last pre))"
    using assms by (simp add: word_at_before)
  then have "rmatch True (WordB # lits ''Function'' @ [Star ClassSpace, Lit 0x28])
      (if pre = [] then None else Some (last pre)) (str ''function ('' @ post) None None \<noteq> None"
    by (rule function_token_matches)
  then have "exec_from True (WordB # lits ''Function'' @ [Star ClassSpace, Lit 0x28]) None
      (pre @ str ''function ('' @ post) \<noteq> None"
    by (rule exec_from_prefix)
  then show ?thesis
    by (simp add: regexp_test_def regexp_exec_def Function_pattern)
qed

lemma prototype_word_test:
  assumes w: "same_word v (str ''prototype'')" and pre: "\<not> ends_word pre" and post: "\<not> begins_word post"
  shows "regexp_test (FORBIDDEN_PATTERNS ! 16) (pre @ v @ post)"
proof -
  let ?prev = "if pre = [] then None else Some (last pre)"
  from w have c: "map canonicalize v = map canonicalize (str ''prototype'')"
    by (simp add: same_word_def)
  have "length (map canonicalize v) = length (map canonicalize (str ''prototype''))"
    by (simp only: c)
  then have len: "length v = 9"
    by (simp add: str_def)
  then have ne: "v \<noteq> []"
    by (cases v) simp_all
  have "hd (map canonicalize v) = hd (map canonicalize (str ''prototype''))"
    by (simp only: c)
  then have h: "canonicalize (hd v) = canonicalize 0x70"
    by (simp add: hd_map ne str_def)
  have "last (map canonicalize v) = last (map canonicalize (str ''prototype''))"
    by (simp only: c)
  then have l: "canonicalize (last v) = canonicalize 0x65"
    by (simp add: last_map ne str_def)
  have wh: "isWordChar (hd v)"
    using canonicalize_word[OF h] by (simp add: isWordChar_def)
  have wl: "isWordChar (last v)"
    using canonicalize_word[OF l] by (simp add: isWordChar_def)
  have hd: "head (v @ post) = Some (hd v)"
    using ne by (cases v) simp_all
  have b1: "word_at ?prev \<noteq> word_at (head (v @ post))"
    using pre wh by (simp add: word_at_before hd) (simp add: word_at_def)
  have b2: "word_at (Some (last v)) \<noteq> word_at (head post)"
    using post wl by (simp add: begins_word_def) (simp add: word_at_def)
  have "rmatch True (map Lit (str ''prototype'') @ [WordB]) ?prev (v @ post) None None
      = rmatch True [WordB] (Some (last v)) post None None"
    by (rule rmatch_lits_any_case[OF c]) (simp add: str_def)
  also have "\<dots> \<noteq> None"
    using b2 by simp
  finally have "rmatch True (WordB # lits ''prototype'' @ [WordB]) ?prev (v @ post) None None \<noteq> None"
    using b1 by (simp add: lits_def)
  then have "exec_from True (WordB # lits ''prototype'' @ [WordB]) None (pre @ v @ post) \<noteq> None"
    by (rule exec_from_prefix)
  then show ?thesis
    by (simp add: regexp_test_def regexp_exec_def prototype_pattern)
qed

lemma nth_pattern: "i < 18 \<Longrightarrow> FORBIDDEN_PATTERNS ! i \<in> set FORBIDDEN_PATTERNS"
  by (simp add: length_FORBIDDEN_PATTERNS)

text \<open>
  Claim C9. The patterns ignore case, so text of the allowed vocabulary is rejected: a
  fragment with the token \<open>function (\<close> of an anonymous function expression (no word
  character before it) matches the pattern for \<open>Function(\<close>, and a fragment with the word
  \<open>prototype\<close> in any casing, standing as a word of its own anywhere in the text, matches
  the pattern for \<open>prototype\<close>; both fragments get a security rejection.
\<close>

theorem case_insensitive_patterns_reject_vocabulary:
  "(\<not> ends_word pre \<longrightarrow>
      regexp_test (FORBIDDEN_PATTERNS ! 2) (pre @ str ''function ('' @ post) \<and>
      security_rejection (validateCode (pre @ str ''function ('' @ post)))
   \<and> (same_word v (str ''prototype'') \<and> \<not> ends_word pre' \<and> \<not> begins_word post' \<longrightarrow>
      regexp_test (FORBIDDEN_PATTERNS ! 16) (pre' @ v @ post') \<and>
      security_rejection (validateCode (pre' @ v @ post')))"
proof (intro conjI impI)
  assume a: "\<not> ends_word pre"
  show t: "regexp_test (FORBIDDEN_PATTERNS ! 2) (pre @ str ''function ('' @ post)"
    by (rule function_token_test[OF a])
  show "security_rejection (validateCode (pre @ str ''function ('' @ post))"
    by (rule deny_listed_security_rejection, rule pattern_matches_deny_listed[OF _ t], rule nth_pattern) simp
next
  assume a: "same_word v (str ''prototype'') \<and> \<not> ends_word pre' \<and> \<not> begins_word post'"
  show t: "regexp_test (FORBIDDEN_PATTERNS ! 16) (pre' @ v @ post')"
    using a by (intro prototype_word_test) simp_all
  show "security_rejection (validateCode (pre' @ v @ post'))"
    by (rule deny_listed_security_rejection, rule pattern_matches_deny_listed[OF _ t], rule nth_pattern) simp
qed

theorem case_insensitive_patterns_reject_vocabulary_witness:
  "\<not> ends_word (str ''function createObject() { return ('') \<and>
   security_rejection (validateCode
     (str ''function createObject() { return ('' @ str ''function ('' @ str '') { return new THREE.Group(); })(); }'')) \<and>
   same_word (str ''Prototype'') (str ''prototype'') \<and>
   \<not> ends_word (str ''function createObject() { return new THREE.Group(); } // '') \<and>
   \<not> begins_word (str '' of a chair'') \<and>
   security_rejection (validateCode
     (str ''function createObject() { return new THREE.Group(); } // '' @ str ''Prototype'' @ str '' of a chair''))"
proof -
  have h1: "\<not> ends_word (str ''function createObject() { return ('')"
    by (simp add: ends_word_def str_def isWordChar_def)
  have h2: "same_word (str ''Prototype'') (str ''prototype'')"
    by (simp add: same_word_def str_def canonicalize_def)
  have h3: "\<not> ends_word (str ''function createObject() { return new THREE.Group(); } // '')"
    by (simp add: ends_word_def str_def isWordChar_def)
  have h4: "\<not> begins_word (str '' of a chair'')"
    by (simp add: begins_word_def str_def word_at_def isWordChar_def)
  note inst = case_insensitive_patterns_reject_vocabulary[
      of "str ''function createObject() { return (''" "str '') { return new THREE.Group(); })(); }''"
         "str ''Prototype''" "str ''function createObject() { return new THREE.Group(); } // ''"
         "str '' of a chair''"]
  have c1: "security_rejection (validateCode
     (str ''function createObject() { return ('' @ str ''function ('' @ str '') { return new THREE.Group(); })(); }''))"
    using inst[THEN conjunct1, rule_format, OF h1] by (rule conjunct2)
  have c2: "security_rejection (validateCode
     (str ''function createObject() { return new THREE.Group(); } // '' @ str ''Prototype'' @ str '' of a chair''))"
    using inst[THEN conjunct2, rule_format, OF conjI[OF h2 conjI[OF h3 h4]]] by (rule conjunct2)
  show ?thesis
    by (intro conjI h1 c1 h2 h3 h4 c2)
qed


section \<open>Properties of the extractor\<close>

text \<open>
  The expression of \<open>cleanCode\<close> is brought into the form of a scan: literal text first,
  then the lazy group up to the closing fence, then the two optional parts, where a
  choice that fails cannot be repaired by the alternatives tried after it, since none
  of the skipped characters is a backtick.
\<close>

lemma rmatch_lits:
  "rmatch False (map Lit w @ rs) prev s opn cap =
     (if starts_with False w s
      then rmatch False rs (if w = [] then prev else Some (last w)) (drop (length w) s) opn cap
      else None)"
proof (induction w arbitrary: s prev)
  case Nil
  then show ?case by simp
next
  case (Cons c w)
  show ?case
  proof (cases s)
    case Nil
    then show ?thesis by simp
  next
    case (Cons x xs)
    with Cons.IH[of "Some x" xs] show ?thesis
      by (cases "x = c") (simp_all add: char_eq_def)
  qed
qed

lemma fence_not_at_other: "x \<noteq> 0x60 \<Longrightarrow> \<not> starts_with False fence (x # xs)"
  by (simp add: fence_def char_eq_def)

lemma close_fence:
  "rmatch False (GroupClose # map Lit fence) prev s (Some (pre @ s)) cap =
     (if starts_with False fence s then Some (Some pre) else None)"
  using rmatch_lits[of fence "[]" prev s "Some (pre @ s)" "Some pre"] by simp

lemma lazy_until_fence:
  "rmatch False (LazyStar ClassAny # GroupClose # map Lit fence) prev s (Some (pre @ s)) cap =
     map_option (\<lambda>b. Some (pre @ b)) (before_fence s)"
proof (induction s arbitrary: prev pre)
  case Nil
  show ?case
    using close_fence[of prev "[]" pre cap] by (simp add: fence_def)
next
  case (Cons x xs)
  show ?case
  proof (cases "starts_with False fence (x # xs)")
    case True
    with close_fence[of prev "x # xs" pre cap] show ?thesis by simp
  next
    case False
    with close_fence[of prev "x # xs" pre cap] Cons.IH[of "Some x" "pre @ [x]"]
    show ?thesis by (simp add: option.map_comp comp_def)
  qed
qed

lemma before_fence_tl: "before_fence (x # xs) = None \<Longrightarrow> before_fence xs = None"
  by (simp split: if_splits)

lemma before_fence_drop: "before_fence u = None \<Longrightarrow> before_fence (drop n u) = None"
proof (induction n arbitrary: u)
  case 0
  then show ?case by simp
next
  case (Suc n)
  then show ?case by (cases u) (auto dest: before_fence_tl simp del: before_fence.simps)
qed

lemma before_fence_other: "x \<noteq> 0x60 \<Longrightarrow> before_fence (x # xs) = map_option ((#) x) (before_fence xs)"
  by (simp add: fence_not_at_other)

lemma before_fence_skip_newline: "before_fence (skip_newline u) = None \<longleftrightarrow> before_fence u = None"
  by (cases u) (simp_all add: before_fence_other del: before_fence.simps)

lemma before_fence_drop_word:
  "starts_with False w u \<Longrightarrow> 0x60 \<notin> set w \<Longrightarrow>
   before_fence (drop (length w) u) = None \<longleftrightarrow> before_fence u = None"
proof (induction w arbitrary: u)
  case Nil
  then show ?case by simp
next
  case (Cons c w)
  then obtain x xs where u: "u = x # xs" by (cases u) auto
  with Cons.prems have "x = c" "starts_with False w xs" "x \<noteq> 0x60" "0x60 \<notin> set w"
    by (auto simp: char_eq_def)
  with Cons.IH[of xs] u show ?case
    by (simp add: before_fence_other del: before_fence.simps)
qed

lemma before_fence_skip_tag: "before_fence (skip_tag u) = None \<longleftrightarrow> before_fence u = None"
proof -
  have j: "0x60 \<notin> set (str ''javascript'')" and s: "0x60 \<notin> set (str ''js'')"
    by (simp_all add: str_def)
  have lj: "length (str ''javascript'') = 10" and ls: "length (str ''js'') = 2"
    by (simp_all add: str_def)
  show ?thesis
    using before_fence_drop_word[OF _ j, of u] before_fence_drop_word[OF _ s, of u]
    by (simp add: skip_tag_def lj ls)
qed

lemma open_lazy_until_fence:
  "rmatch False (GroupOpen # LazyStar ClassAny # GroupClose # map Lit fence) prev u opn cap =
     map_option Some (before_fence u)"
  using lazy_until_fence[of prev u "[]" cap] by simp

lemma optlit_one:
  "rmatch ic (OptLit [a] # rs) prev s opn cap =
     (case (if a \<noteq> [] \<and> starts_with ic a s
            then rmatch ic rs (Some (last (take (length a) s))) (drop (length a) s) opn cap
            else None) of
        Some r \<Rightarrow> Some r
      | None \<Rightarrow> rmatch ic rs prev s opn cap)"
  by (simp only: rmatch.simps(11,12))

lemma optlit_two:
  "rmatch ic (OptLit [a, b] # rs) prev s opn cap =
     (case (if a \<noteq> [] \<and> starts_with ic a s
            then rmatch ic rs (Some (last (take (length a) s))) (drop (length a) s) opn cap
            else None) of
        Some r \<Rightarrow> Some r
      | None \<Rightarrow>
          (case (if b \<noteq> [] \<and> starts_with ic b s
                 then rmatch ic rs (Some (last (take (length b) s))) (drop (length b) s) opn cap
                 else None) of
             Some r \<Rightarrow> Some r
           | None \<Rightarrow> rmatch ic rs prev s opn cap))"
  by (simp only: rmatch.simps(11,12))

lemma optional_newline:
  "rmatch False (OptLit [[0x0A]] # GroupOpen # LazyStar ClassAny # GroupClose # map Lit fence)
     prev t opn cap = map_option Some (before_fence (skip_newline t))"
proof -
  have unfold: "rmatch False (OptLit [[0x0A]] # GroupOpen # LazyStar ClassAny # GroupClose # map Lit fence)
     prev t opn cap =
     (case (if starts_with False [0x0A] t then map_option Some (before_fence (drop 1 t)) else None) of
        Some r \<Rightarrow> Some r
      | None \<Rightarrow> map_option Some (before_fence t))"
    unfolding optlit_one open_lazy_until_fence by (simp del: rmatch.simps)
  have "(case (if starts_with False [0x0A] t then map_option Some (before_fence (drop 1 t)) else None) of
        Some r \<Rightarrow> Some r
      | None \<Rightarrow> map_option Some (before_fence t)) = map_option Some (before_fence (skip_newline t))"
  proof (cases t)
    case Nil
    then show ?thesis by simp
  next
    case (Cons x xs)
    show ?thesis
    proof (cases "x = 0x0A")
      case True
      then have "before_fence (x # xs) = map_option ((#) x) (before_fence xs)"
        by (intro before_fence_other) simp
      with True Cons show ?thesis
        by (cases "before_fence xs") (simp_all add: char_eq_def del: before_fence.simps)
    next
      case False
      with Cons show ?thesis
        by (simp add: char_eq_def del: before_fence.simps)
    qed
  qed
  with unfold show ?thesis
    by (simp only:)
qed

lemma optional_tag:
  "rmatch False (OptLit [str ''javascript'', str ''js''] # OptLit [[0x0A]] # GroupOpen #
      LazyStar ClassAny # GroupClose # map Lit fence) prev r opn cap =
     map_option Some (before_fence (skip_newline (skip_tag r)))"
proof -
  define g where "g u = map_option Some (before_fence (skip_newline u))" for u
  have j: "0x60 \<notin> set (str ''javascript'')" and s: "0x60 \<notin> set (str ''js'')"
    by (simp_all add: str_def)
  have lj: "length (str ''javascript'') = 10" and ls: "length (str ''js'') = 2"
    by (simp_all add: str_def)
  have nj: "str ''javascript'' \<noteq> []" and ns: "str ''js'' \<noteq> []"
    by (simp_all add: str_def)
  have unfold: "rmatch False (OptLit [str ''javascript'', str ''js''] # OptLit [[0x0A]] # GroupOpen #
      LazyStar ClassAny # GroupClose # map Lit fence) prev r opn cap =
     (case (if starts_with False (str ''javascript'') r then g (drop 10 r) else None) of
        Some x \<Rightarrow> Some x
      | None \<Rightarrow>
          (case (if starts_with False (str ''js'') r then g (drop 2 r) else None) of
             Some x \<Rightarrow> Some x
           | None \<Rightarrow> g r))"
    unfolding optlit_two optional_newline g_def lj ls by (simp add: nj ns del: rmatch.simps)
  have none: "g u = None \<longleftrightarrow> before_fence u = None" for u
    by (simp add: g_def before_fence_skip_newline)
  have "(case (if starts_with False (str ''javascript'') r then g (drop 10 r) else None) of
        Some x \<Rightarrow> Some x
      | None \<Rightarrow>
          (case (if starts_with False (str ''js'') r then g (drop 2 r) else None) of
             Some x \<Rightarrow> Some x
           | None \<Rightarrow> g r)) = g (skip_tag r)"
  proof (cases "starts_with False (str ''javascript'') r")
    case True
    then have t: "skip_tag r = drop 10 r"
      by (simp add: skip_tag_def)
    show ?thesis
    proof (cases "g (drop 10 r)")
      case None
      then have "before_fence r = None"
        using before_fence_drop_word[OF True j] by (simp add: none lj)
      then have "g r = None" "g (drop 2 r) = None"
        by (simp_all add: none before_fence_drop)
      with True None show ?thesis
        by (simp add: t)
    next
      case (Some b)
      with True show ?thesis
        by (simp add: t)
    qed
  next
    case False
    note notj = this
    show ?thesis
    proof (cases "starts_with False (str ''js'') r")
      case True
      with notj have t: "skip_tag r = drop 2 r"
        by (simp add: skip_tag_def)
      show ?thesis
      proof (cases "g (drop 2 r)")
        case None
        then have "before_fence r = None"
          using before_fence_drop_word[OF True s] by (simp add: none ls)
        then have "g r = None"
          by (simp add: none)
        with True None notj show ?thesis
          by (simp add: t)
      next
        case (Some b)
        with True notj show ?thesis
          by (simp add: t)
      qed
    next
      case False
      with notj have t: "skip_tag r = r"
        by (simp add: skip_tag_def)
      from False notj show ?thesis
        by (simp add: t)
    qed
  qed
  with unfold show ?thesis
    by (simp only: g_def)
qed

lemma items_code_block_regexp:
  "items code_block_regexp =
     map Lit fence @ (OptLit [str ''javascript'', str ''js''] # OptLit [[0x0A]] # GroupOpen #
       LazyStar ClassAny # GroupClose # map Lit fence)"
  by (simp add: code_block_regexp_def lits_def fence_def str_def)

lemma match_at:
  "rmatch False (items code_block_regexp) prev s None None =
     (if starts_with False fence s
      then map_option Some (before_fence (skip_newline (skip_tag (drop 3 s))))
      else None)"
proof -
  have l: "length fence = 3" and n: "fence \<noteq> []"
    by (simp_all add: fence_def)
  show ?thesis
    by (simp only: items_code_block_regexp rmatch_lits optional_tag l n)
qed

lemma after_fence_drop: "after_fence xs = Some r \<Longrightarrow> \<exists>n. r = drop (n + 2) xs"
proof (induction xs)
  case Nil
  then show ?case by simp
next
  case (Cons x xs)
  show ?case
  proof (cases "starts_with False fence (x # xs)")
    case True
    with Cons.prems have "r = drop (1 + 2) (x # xs)" by (auto simp: numeral_2_eq_2)
    then show ?thesis by blast
  next
    case False
    with Cons.prems have "after_fence xs = Some r" by simp
    then obtain n where "r = drop (n + 2) xs" using Cons.IH by blast
    then have "r = drop (Suc n + 2) (x # xs)" by simp
    then show ?thesis by blast
  qed
qed

lemma before_fence_skips: "before_fence (skip_newline (skip_tag u)) = None \<longleftrightarrow> before_fence u = None"
  by (simp add: before_fence_skip_newline before_fence_skip_tag)

lemma fenced_inner_later:
  assumes "before_fence (drop 2 xs) = None"
  shows "fenced_inner xs = None"
proof (cases "after_fence xs")
  case None
  then show ?thesis by (simp add: fenced_inner_def)
next
  case (Some r)
  then obtain n where "r = drop (n + 2) xs" using after_fence_drop by blast
  then have "r = drop n (drop 2 xs)" by simp
  with assms have "before_fence r = None" by (simp only: before_fence_drop)
  with Some show ?thesis by (simp add: fenced_inner_def before_fence_skips)
qed

lemma exec_code_block:
  "exec_from False (items code_block_regexp) prev s = map_option Some (fenced_inner s)"
proof (induction s arbitrary: prev)
  case Nil
  show ?case by (simp add: match_at fenced_inner_def fence_def)
next
  case (Cons x xs)
  show ?case
  proof (cases "starts_with False fence (x # xs)")
    case True
    note st = this
    show ?thesis
    proof (cases "before_fence (skip_newline (skip_tag (drop 3 (x # xs))))")
      case None
      then have "before_fence (drop 3 (x # xs)) = None"
        by (simp only: before_fence_skips)
      then have "before_fence (drop 2 xs) = None"
        by simp
      then have "fenced_inner xs = None"
        by (rule fenced_inner_later)
      with st None Cons.IH[of "Some x"] show ?thesis
        by (simp add: match_at fenced_inner_def del: before_fence.simps)
    next
      case (Some b)
      with st show ?thesis
        by (simp add: match_at fenced_inner_def del: before_fence.simps)
    qed
  next
    case False
    with Cons.IH[of "Some x"] show ?thesis
      by (simp add: match_at fenced_inner_def)
  qed
qed

lemma cleanCode_scan:
  "cleanCode s = trim (case fenced_inner s of None \<Rightarrow> s | Some inner \<Rightarrow> inner)"
  by (cases "fenced_inner s") (simp_all add: cleanCode_def regexp_exec_def exec_code_block code_block_regexp_def[THEN arg_cong[of _ _ ignoreCase]])

text \<open>Texts with a fence, and with two fences.\<close>

lemma starts_with_decomp: "starts_with False w s \<Longrightarrow> s = w @ drop (length w) s"
proof (induction w arbitrary: s)
  case Nil
  then show ?case by simp
next
  case (Cons c w)
  then show ?case by (cases s) (auto simp: char_eq_def)
qed

lemma starts_with_self: "starts_with False w (w @ t)"
  by (induction w) (simp_all add: char_eq_def)

lemma starts_with_append: "starts_with False w u \<Longrightarrow> starts_with False w (u @ v)"
proof (induction w arbitrary: u)
  case Nil
  then show ?case by simp
next
  case (Cons c w)
  then show ?case by (cases u) auto
qed

lemma length_fence: "length fence = 3"
  by (simp add: fence_def)

lemma before_fence_decomp: "before_fence t = Some b \<Longrightarrow> \<exists>c. t = b @ fence @ c"
proof (induction t arbitrary: b)
  case Nil
  then show ?case by simp
next
  case (Cons x xs)
  show ?case
  proof (cases "starts_with False fence (x # xs)")
    case True
    with Cons.prems have "b = []" by simp
    moreover from True have "x # xs = fence @ drop 3 (x # xs)"
      using starts_with_decomp[OF True] by (simp only: length_fence)
    ultimately show ?thesis by auto
  next
    case False
    with Cons.prems obtain b' where b': "before_fence xs = Some b'" and b: "b = x # b'"
      by auto
    from Cons.IH[OF b'] obtain c where "xs = b' @ fence @ c" by blast
    with b show ?thesis by simp
  qed
qed

lemma before_fence_append: "before_fence (a @ fence @ c) \<noteq> None"
proof (induction a)
  case Nil
  have "starts_with False fence (fence @ c)" by (rule starts_with_self)
  then show ?case by (cases "fence @ c") (simp_all add: fence_def)
next
  case (Cons x a)
  then show ?case by auto
qed

lemma has_fence_iff: "before_fence s \<noteq> None \<longleftrightarrow> (\<exists>a c. s = a @ fence @ c)"
proof
  assume "before_fence s \<noteq> None"
  then obtain b where "before_fence s = Some b" by auto
  from before_fence_decomp[OF this] show "\<exists>a c. s = a @ fence @ c" by blast
next
  assume "\<exists>a c. s = a @ fence @ c"
  then obtain a c where "s = a @ fence @ c" by blast
  then show "before_fence s \<noteq> None" using before_fence_append[of a c] by simp
qed

lemma before_fence_result: "before_fence t = Some b \<Longrightarrow> before_fence b = None"
proof (induction t arbitrary: b)
  case Nil
  then show ?case by simp
next
  case (Cons x xs)
  show ?case
  proof (cases "starts_with False fence (x # xs)")
    case True
    with Cons.prems show ?thesis by simp
  next
    case False
    with Cons.prems obtain b' where b': "before_fence xs = Some b'" and b: "b = x # b'"
      by auto
    from before_fence_decomp[OF b'] obtain c where xs: "xs = b' @ fence @ c" by blast
    have "\<not> starts_with False fence (x # b')"
    proof
      assume "starts_with False fence (x # b')"
      then have "starts_with False fence ((x # b') @ fence @ c)" by (rule starts_with_append)
      with xs False show False by simp
    qed
    with Cons.IH[OF b'] b show ?thesis by simp
  qed
qed

lemma after_fence_decomp: "after_fence s = Some r \<Longrightarrow> \<exists>a. s = a @ fence @ r"
proof (induction s)
  case Nil
  then show ?case by simp
next
  case (Cons x xs)
  show ?case
  proof (cases "starts_with False fence (x # xs)")
    case True
    with Cons.prems have "r = drop 3 (x # xs)" by simp
    with starts_with_decomp[OF True] have "x # xs = [] @ fence @ r"
      by (simp only: length_fence append_Nil)
    then show ?thesis by blast
  next
    case False
    with Cons.prems have "after_fence xs = Some r" by simp
    then obtain a where "xs = a @ fence @ r" using Cons.IH by blast
    then have "x # xs = (x # a) @ fence @ r" by simp
    then show ?thesis by blast
  qed
qed

lemma after_fence_append: "\<exists>r n. after_fence (a @ fence @ t) = Some r \<and> t = drop n r"
proof (induction a)
  case Nil
  have "starts_with False fence (fence @ t)" by (rule starts_with_self)
  then have "after_fence (fence @ t) = Some t" by (simp add: fence_def)
  then have "after_fence ([] @ fence @ t) = Some t \<and> t = drop 0 t" by simp
  then show ?case by blast
next
  case (Cons x a)
  show ?case
  proof (cases "starts_with False fence (x # a @ fence @ t)")
    case True
    then have "after_fence ((x # a) @ fence @ t) = Some (drop 2 (a @ fence @ t))"
      by (simp add: numeral_3_eq_3 numeral_2_eq_2)
    moreover have "t = drop (Suc (length a)) (drop 2 (a @ fence @ t))"
      by (simp add: length_fence)
    ultimately show ?thesis by blast
  next
    case False
    with Cons.IH show ?thesis by simp
  qed
qed

lemma fenced_inner_iff: "fenced_inner u \<noteq> None \<longleftrightarrow> (\<exists>a b c. u = a @ fence @ b @ fence @ c)"
proof
  assume "fenced_inner u \<noteq> None"
  then obtain r where r: "after_fence u = Some r"
      and i: "before_fence (skip_newline (skip_tag r)) \<noteq> None"
    by (cases "after_fence u") (simp_all add: fenced_inner_def)
  from i have "before_fence r \<noteq> None"
    using before_fence_skips[of r] by simp
  then obtain b c where rc: "r = b @ fence @ c"
    using has_fence_iff[THEN iffD1] by blast
  from after_fence_decomp[OF r] obtain a where "u = a @ fence @ r"
    by blast
  then have "u = a @ fence @ b @ fence @ c"
    by (simp only: rc)
  then show "\<exists>a b c. u = a @ fence @ b @ fence @ c"
    by blast
next
  assume "\<exists>a b c. u = a @ fence @ b @ fence @ c"
  then obtain a b c where u: "u = a @ fence @ b @ fence @ c"
    by blast
  from after_fence_append[of a "b @ fence @ c"] obtain r n
    where "after_fence (a @ fence @ b @ fence @ c) = Some r" and n: "b @ fence @ c = drop n r"
    by blast
  then have r: "after_fence u = Some r"
    by (simp only: u)
  have "before_fence (b @ fence @ c) \<noteq> None"
    by (rule before_fence_append)
  then have d: "before_fence (drop n r) \<noteq> None"
    by (simp add: n)
  have "before_fence r \<noteq> None"
  proof
    assume "before_fence r = None"
    then have "before_fence (drop n r) = None"
      by (rule before_fence_drop)
    with d show False
      by (rule notE)
  qed
  then have "before_fence (skip_newline (skip_tag r)) \<noteq> None"
    using before_fence_skips[of r] by simp
  then show "fenced_inner u \<noteq> None"
    by (simp add: fenced_inner_def r)
qed

lemma fenced_inner_has_fence: "fenced_inner u \<noteq> None \<Longrightarrow> before_fence u \<noteq> None"
proof -
  assume "fenced_inner u \<noteq> None"
  then obtain a b c where "u = a @ fence @ (b @ fence @ c)"
    using fenced_inner_iff[THEN iffD1] by blast
  then show ?thesis
    using before_fence_append[of a "b @ fence @ c"] by simp
qed

text \<open>Trimming: the result is a part of the text, and trimming twice changes nothing.\<close>

lemma rev_dropWhile_rev: "xs = rev (dropWhile P (rev xs)) @ rev (takeWhile P (rev xs))"
proof -
  have "rev (takeWhile P (rev xs) @ dropWhile P (rev xs)) = rev (rev xs)"
    by (simp only: takeWhile_dropWhile_id)
  then show ?thesis
    by (simp only: rev_append rev_rev_ident)
qed

lemma trim_decomp: "\<exists>w1 w2. s = w1 @ trim s @ w2"
proof -
  have "dropWhile isWhiteSpace s = trim s @ rev (takeWhile isWhiteSpace (rev (dropWhile isWhiteSpace s)))"
    unfolding trim_def by (rule rev_dropWhile_rev)
  then have "takeWhile isWhiteSpace s @ dropWhile isWhiteSpace s =
      takeWhile isWhiteSpace s @ trim s @ rev (takeWhile isWhiteSpace (rev (dropWhile isWhiteSpace s)))"
    by (rule arg_cong)
  then have "s = takeWhile isWhiteSpace s @ trim s @ rev (takeWhile isWhiteSpace (rev (dropWhile isWhiteSpace s)))"
    by (simp only: takeWhile_dropWhile_id)
  then show ?thesis by blast
qed

lemma dropWhile_trim: "dropWhile isWhiteSpace (trim s) = trim s"
proof (cases "trim s")
  case Nil
  then show ?thesis by simp
next
  case (Cons y ys)
  obtain v where "dropWhile isWhiteSpace s = trim s @ v"
    unfolding trim_def using rev_dropWhile_rev by blast
  with Cons have d: "dropWhile isWhiteSpace s = y # ys @ v"
    by simp
  then have "dropWhile isWhiteSpace s \<noteq> []"
    by simp
  then have "\<not> isWhiteSpace (hd (dropWhile isWhiteSpace s))"
    by (rule hd_dropWhile)
  with d have "\<not> isWhiteSpace y"
    by simp
  with Cons show ?thesis
    by simp
qed

lemma trim_idem: "trim (trim s) = trim s"
proof -
  have "trim (trim s) = rev (dropWhile isWhiteSpace (rev (trim s)))"
    unfolding trim_def[of "trim s"] by (simp only: dropWhile_trim)
  also have "\<dots> = rev (dropWhile isWhiteSpace (dropWhile isWhiteSpace (rev (dropWhile isWhiteSpace s))))"
    unfolding trim_def by (simp only: rev_rev_ident)
  also have "\<dots> = trim s"
    unfolding trim_def by (simp only: dropWhile_idem)
  finally show ?thesis .
qed

lemma trim_append_space:
  assumes "isWhiteSpace w"
  shows "trim (x @ [w]) = trim x"
proof (cases "dropWhile isWhiteSpace x = []")
  case True
  then have "\<forall>c\<in>set x. isWhiteSpace c"
    by simp
  then have "dropWhile isWhiteSpace (x @ [w]) = dropWhile isWhiteSpace [w]"
    by (intro dropWhile_append2) simp
  with assms have "dropWhile isWhiteSpace (x @ [w]) = []"
    by simp
  then show ?thesis
    unfolding trim_def True by simp
next
  case False
  then obtain c where "c \<in> set x" "\<not> isWhiteSpace c"
    by auto
  then have "dropWhile isWhiteSpace (x @ [w]) = dropWhile isWhiteSpace x @ [w]"
    by (rule dropWhile_append1)
  with assms show ?thesis
    by (simp add: trim_def)
qed

lemma no_fence_no_inner:
  assumes "before_fence u = None"
  shows "fenced_inner u = None"
proof (rule ccontr)
  assume "fenced_inner u \<noteq> None"
  then have "before_fence u \<noteq> None"
    by (rule fenced_inner_has_fence)
  with assms show False
    by simp
qed

text \<open>
  Claim C10. \<open>cleanCode\<close> is idempotent: the text it returns holds no fence when it came
  out of a fenced block, and holds no fenced block when the input had none, so a second
  application only trims again, and trimming is idempotent.
\<close>

theorem cleanCode_idempotent: "cleanCode (cleanCode x) = cleanCode x"
proof (cases "fenced_inner x")
  case None
  then have c: "cleanCode x = trim x"
    by (simp add: cleanCode_scan)
  have "fenced_inner (trim x) = None"
  proof (rule ccontr)
    assume "fenced_inner (trim x) \<noteq> None"
    then obtain a b c where t: "trim x = a @ fence @ b @ fence @ c"
      using fenced_inner_iff[THEN iffD1] by blast
    obtain w1 w2 where "x = w1 @ trim x @ w2"
      using trim_decomp by blast
    then have "x = (w1 @ a) @ fence @ b @ fence @ (c @ w2)"
      by (simp add: t)
    then have "fenced_inner x \<noteq> None"
      using fenced_inner_iff[THEN iffD2] by blast
    with None show False
      by simp
  qed
  then have "cleanCode (trim x) = trim (trim x)"
    by (simp add: cleanCode_scan)
  then show ?thesis
    by (simp add: c trim_idem)
next
  case (Some inner)
  then have c: "cleanCode x = trim inner"
    by (simp add: cleanCode_scan)
  from Some obtain t where "before_fence t = Some inner"
    by (cases "after_fence x") (simp_all add: fenced_inner_def)
  then have n: "before_fence inner = None"
    by (rule before_fence_result)
  have "before_fence (trim inner) = None"
  proof (rule ccontr)
    assume "before_fence (trim inner) \<noteq> None"
    then obtain a c where t: "trim inner = a @ fence @ c"
      using has_fence_iff[THEN iffD1] by blast
    obtain w1 w2 where "inner = w1 @ trim inner @ w2"
      using trim_decomp by blast
    then have "inner = (w1 @ a) @ fence @ (c @ w2)"
      by (simp add: t)
    then have "before_fence inner \<noteq> None"
      using has_fence_iff[THEN iffD2] by blast
    with n show False
      by simp
  qed
  then have "fenced_inner (trim inner) = None"
    by (rule no_fence_no_inner)
  then have "cleanCode (trim inner) = trim (trim inner)"
    by (simp add: cleanCode_scan)
  then show ?thesis
    by (simp add: c trim_idem)
qed

lemma starts_with_before_newline:
  "starts_with False w (u @ 0x0A # t) \<Longrightarrow> 0x0A \<notin> set w \<Longrightarrow> starts_with False w u"
proof (induction w arbitrary: u)
  case Nil
  then show ?case by simp
next
  case (Cons c w)
  then show ?case by (cases u) (auto simp: char_eq_def)
qed

lemma before_fence_no_fence:
  "\<not> includes_js x fence \<Longrightarrow> before_fence (x @ 0x0A # t) = map_option ((@) x) (before_fence (0x0A # t))"
proof (induction x)
  case Nil
  show ?case by (cases "before_fence (0x0A # t)") simp_all
next
  case (Cons a x)
  then have s: "\<not> starts_with False fence (a # x)" and i: "\<not> includes_js x fence"
    by simp_all
  have "\<not> starts_with False fence ((a # x) @ 0x0A # t)"
  proof
    assume "starts_with False fence ((a # x) @ 0x0A # t)"
    then have "starts_with False fence (a # x)"
      by (rule starts_with_before_newline) (simp add: fence_def)
    with s show False by (rule notE)
  qed
  then have "before_fence ((a # x) @ 0x0A # t) = map_option ((#) a) (before_fence (x @ 0x0A # t))"
    by simp
  also have "\<dots> = map_option ((#) a) (map_option ((@) x) (before_fence (0x0A # t)))"
    by (simp only: Cons.IH[OF i])
  also have "\<dots> = map_option ((@) (a # x)) (before_fence (0x0A # t))"
    by (cases "before_fence (0x0A # t)") simp_all
  finally show ?case .
qed

text \<open>
  Claim C7. Round trip: a text \<open>x\<close> without a fence, wrapped in three backticks with the tag
  \<open>javascript\<close>, a line feed before \<open>x\<close>, a line feed after it and three closing backticks,
  is given back by \<open>cleanCode\<close> trimmed.
\<close>

theorem cleanCode_round_trip:
  assumes "\<not> includes_js x fence"
  shows "cleanCode (str ''```javascript'' @ [0x0A] @ x @ [0x0A] @ str ''```'') = trim x"
proof -
  let ?w = "str ''```javascript'' @ [0x0A] @ x @ [0x0A] @ str ''```''"
  have w: "?w = fence @ str ''javascript'' @ 0x0A # x @ 0x0A # fence"
    by (simp add: str_def fence_def)
  have "starts_with False fence ?w"
    unfolding w by (rule starts_with_self)
  then have a: "after_fence ?w = Some (str ''javascript'' @ 0x0A # x @ 0x0A # fence)"
    unfolding w by (simp add: fence_def)
  have "starts_with False (str ''javascript'') (str ''javascript'' @ 0x0A # x @ 0x0A # fence)"
    by (rule starts_with_self)
  then have t: "skip_tag (str ''javascript'' @ 0x0A # x @ 0x0A # fence) = 0x0A # x @ 0x0A # fence"
    by (simp add: skip_tag_def) (simp add: str_def)
  have f: "before_fence (0x0A # fence) = Some [0x0A]"
    by (simp add: fence_def char_eq_def)
  have "before_fence (x @ 0x0A # fence) = Some (x @ [0x0A])"
    by (simp add: before_fence_no_fence[OF assms] f del: before_fence.simps)
  with a t have "fenced_inner ?w = Some (x @ [0x0A])"
    by (simp add: fenced_inner_def del: before_fence.simps after_fence.simps)
  then have "cleanCode ?w = trim (x @ [0x0A])"
    by (simp add: cleanCode_scan)
  also have "\<dots> = trim x"
    by (rule trim_append_space) (simp add: isWhiteSpace_def)
  finally show ?thesis .
qed

lemmas fence_eval = fenced_inner_def skip_tag_def fence_def str_def char_eq_def
  trim_def isWhiteSpace_def


theorem cleanCode_round_trip_witness:
  "\<not> includes_js (str '' a = 1;'') fence \<and>
   cleanCode (str ''```javascript'' @ [0x0A] @ str '' a = 1;'' @ [0x0A] @ str ''```'') = str ''a = 1;''"
proof -
  have h: "\<not> includes_js (str '' a = 1;'') fence"
    by (simp add: str_def fence_def char_eq_def)
  have "trim (str '' a = 1;'') = str ''a = 1;''"
    by (simp add: trim_def str_def isWhiteSpace_def)
  with cleanCode_round_trip[OF h] h show ?thesis
    by (simp only:) simp
qed


text \<open>
  Claim C6, as the code has it. When the input holds a fence and, after it, another one,
  \<open>cleanCode\<close> returns, trimmed, the text between the first fence and the next one, where
  directly after the first fence the tag \<open>javascript\<close> or \<open>js\<close> (no other hint) and then
  one line feed are left out when present. Otherwise it returns the whole input, trimmed.
  It is a total function on strings.
\<close>

theorem cleanCode_extracts_first_block:
  "cleanCode s =
     trim (case after_fence s of
             None \<Rightarrow> s
           | Some r \<Rightarrow>
               (case before_fence (skip_newline (skip_tag r)) of
                  None \<Rightarrow> s
                | Some inner \<Rightarrow> inner))"
  by (simp add: cleanCode_scan fenced_inner_def split: option.splits)

theorem cleanCode_extracts_first_block_witness:
  "cleanCode (str ''Here: ```js'' @ [0x0A] @ str ''f()'' @ [0x0A] @ str ''``` and ```more```'') = str ''f()'' \<and>
   cleanCode (str '' no ``` block '') = str ''no ``` block''"
  by (simp add: cleanCode_extracts_first_block fence_eval)

text \<open>
  Claim C6 as stated fails for a block tagged with another language hint: the hint is
  returned as part of the text, while the inner text of the block is what follows it.
\<close>

theorem language_hint_counterexample:
  "cleanCode (str ''```python'' @ [0x0A] @ str ''x = 1```'') = str ''python'' @ [0x0A] @ str ''x = 1'' \<and>
   spec_cleanCode (str ''```python'' @ [0x0A] @ str ''x = 1```'') = str ''x = 1''"
  by (simp add: cleanCode_scan spec_cleanCode_def spec_fenced_inner_def isWordChar_def fence_eval)


section \<open>Properties of the exporters and of the executor\<close>

text \<open>The exporters: infrastructure nodes add nothing, a user node adds itself.\<close>

lemmas node_defs = infrastructure_def Light_def GridHelper_def Mesh_def Group_def
  exportGLTF_scene_def exportGLTF_child_def exportOBJ_scene_def exportOBJ_child_def
  material_is_shadow_def clone_def

lemma export_infrastructure:
  "exportGLTF_scene (infrastructure g) = []" "exportOBJ_scene (infrastructure g) = []"
  by (simp_all add: node_defs)

lemma export_append:
  "exportGLTF_scene (xs @ ys) = exportGLTF_scene xs @ exportGLTF_scene ys"
  "exportOBJ_scene (xs @ ys) = exportOBJ_scene xs @ exportOBJ_scene ys"
  by (simp_all add: exportGLTF_scene_def exportOBJ_scene_def)

lemma export_user_node:
  assumes "user_node u"
  shows "exportGLTF_child u = [u]" "exportOBJ_child u = [u]"
proof -
  from assms consider "u = Group" | "u = Mesh (material u)" "\<not> material_is_shadow u"
    by (auto simp: user_node_def)
  then have "exportGLTF_child u = [u] \<and> exportOBJ_child u = [u]"
  proof cases
    case 1
    then show ?thesis
      by (simp add: exportGLTF_child_def exportOBJ_child_def Group_def material_is_shadow_def clone_def)
  next
    case 2
    have "isMesh u" "\<not> isGridHelper u" "\<not> isLight u" "\<not> isShadowMaterial u"
      by (subst 2(1), simp add: Mesh_def)+
    with 2(2) show ?thesis
      by (simp add: exportGLTF_child_def exportOBJ_child_def clone_def)
  qed
  then show "exportGLTF_child u = [u]" "exportOBJ_child u = [u]"
    by simp_all
qed

text \<open>
  Claim C8, as the code has it. For a scene whose children are the infrastructure nodes
  followed by two user nodes, each a group or a mesh whose material is not a shadow
  material, the export scenes of \<open>exportGLTF\<close> and of \<open>exportOBJ\<close> hold exactly the two user
  nodes and no infrastructure node.
\<close>

theorem export_scene_selects_user_nodes:
  assumes "user_node u1" and "user_node u2"
  shows "exportGLTF_scene (infrastructure g @ [u1, u2]) = [u1, u2] \<and>
         exportOBJ_scene (infrastructure g @ [u1, u2]) = [u1, u2]"
  using export_user_node[OF assms(1)] export_user_node[OF assms(2)]
  by (simp add: export_append export_infrastructure) (simp add: exportGLTF_scene_def exportOBJ_scene_def)

theorem export_scene_selects_user_nodes_witness:
  "user_node (Mesh (Material False)) \<and> user_node Group \<and>
   exportGLTF_scene (infrastructure False @ [Mesh (Material False), Group]) = [Mesh (Material False), Group] \<and>
   exportOBJ_scene (infrastructure False @ [Mesh (Material False), Group]) = [Mesh (Material False), Group]"
proof -
  have h1: "user_node (Mesh (Material False))"
    by (simp add: user_node_def Mesh_def Group_def material_is_shadow_def)
  have h2: "user_node Group"
    by (simp add: user_node_def)
  from export_scene_selects_user_nodes[OF h1 h2, of False] h1 h2 show ?thesis
    by simp
qed

text \<open>
  Claim C8 as stated fails for a user mesh with a shadow material: the exporters take it
  for the ground and leave it out, so only one of the two user nodes is selected.
\<close>

theorem shadow_material_mesh_counterexample:
  "exportGLTF_scene (infrastructure False @ [Mesh (Material True), Group]) = [Group] \<and>
   exportOBJ_scene (infrastructure False @ [Mesh (Material True), Group]) = [Group]"
  by (simp add: node_defs)

text \<open>
  The executor on an accepted fragment that parses and whose call returns a value: the
  node itself when the value is an \<open>Object3D\<close>, an error and no node otherwise.
\<close>

lemma executeThreeJSCode_returned:
  assumes "valid (validateCode code)"
    and "newFunction eng (str ''THREE'') (function_body code) = Inr f"
    and "callFunction eng f globals THREE = Inr v"
  shows "fst (executeThreeJSCode eng globals THREE code) =
     (if \<not> truthy v
      then Inl (catch_block (ThrownError (str ''createObject() returned null or undefined'')))
      else case v of
             JSObject3D node \<Rightarrow> Inr node
           | _ \<Rightarrow> Inl (catch_block (ThrownError
                      (str ''Expected THREE.Object3D but got '' @ kind_name v))))"
  using assms by (cases v) (simp_all add: executeThreeJSCode_def Let_def)

lemma non_node_result_fails:
  assumes "valid (validateCode code)"
    and "newFunction eng (str ''THREE'') (function_body code) = Inr f"
    and "callFunction eng f globals THREE = Inr v"
    and "\<And>node. v \<noteq> JSObject3D node"
  shows "\<exists>e. fst (executeThreeJSCode eng globals THREE code) = Inl e"
  using assms(4) unfolding executeThreeJSCode_returned[OF assms(1-3)]
  by (cases v) auto

text \<open>
  Claim C4 at the return value \<open>0\<close>: the value is a number, not a node, and the executor
  fails, but the error says that \<open>createObject\<close> returned null or undefined: \<open>!result\<close> holds
  for every falsy value. The kind observed is described only for a value that is not
  falsy, as the number \<open>5\<close> shows.
\<close>

theorem falsy_result_reported_as_null:
  "fst (executeThreeJSCode (returning (JSNumber (Finite 0))) () ()
          (str ''function createObject() { return 0; }''))
     = Inl (Error (str ''Code execution failed: createObject() returned null or undefined''))"
proof -
  have f: "fired (str ''function createObject() { return 0; }'') = None"
    by (simp add: fired_def pattern_defs regexp_defs)
  have i: "includes_js (str ''function createObject() { return 0; }'') (str ''function createObject'')"
    by (simp add: str_def char_eq_def)
  have v: "validateCode (str ''function createObject() { return 0; }'') = \<lparr>valid = True, error = None\<rparr>"
    by (simp add: validateCode_fired f i)
  have n: "\<not> includes_js (str ''createObject() returned null or undefined'') (str ''Security violation'')"
    by (simp add: str_def char_eq_def)
  show ?thesis
    by (simp add: executeThreeJSCode_def v returning_def catch_block_def n Let_def) (simp add: str_def)
qed

theorem truthy_non_node_result_described:
  "fst (executeThreeJSCode (returning (JSNumber (Finite 5))) () ()
          (str ''function createObject() { return 5; }''))
     = Inl (Error (str ''Code execution failed: Expected THREE.Object3D but got Number''))"
proof -
  have f: "fired (str ''function createObject() { return 5; }'') = None"
    by (simp add: fired_def pattern_defs regexp_defs)
  have i: "includes_js (str ''function createObject() { return 5; }'') (str ''function createObject'')"
    by (simp add: str_def char_eq_def)
  have v: "validateCode (str ''function createObject() { return 5; }'') = \<lparr>valid = True, error = None\<rparr>"
    by (simp add: validateCode_fired f i)
  have n: "\<not> includes_js (str ''Expected THREE.Object3D but got '' @ str ''Number'') (str ''Security violation'')"
    by (simp add: str_def char_eq_def)
  show ?thesis
    by (simp add: executeThreeJSCode_def v returning_def catch_block_def n Let_def) (simp add: str_def)
qed

text \<open>
  Claim C2 at a fragment that reads the ambient global \<open>innerWidth\<close>: the validator accepts
  it, and the executor hands it to \<open>new Function\<close>, whose functions resolve free names in
  the global environment of the page.
\<close>

theorem ambient_global_fragment_evaluated:
  "validateCode (str ''function createObject() { return new THREE.Mesh(new THREE.BoxGeometry(innerWidth)); }'')
     = \<lparr>valid = True, error = None\<rparr> \<and>
   take 1 (snd (executeThreeJSCode eng globals THREE
     (str ''function createObject() { return new THREE.Mesh(new THREE.BoxGeometry(innerWidth)); }'')))
     = [NewFunction (str ''THREE'') (function_body
         (str ''function createObject() { return new THREE.Mesh(new THREE.BoxGeometry(innerWidth)); }''))]"
proof -
  let ?c = "str ''function createObject() { return new THREE.Mesh(new THREE.BoxGeometry(innerWidth)); }''"
  have f: "fired ?c = None"
    by (simp add: fired_def pattern_defs regexp_defs)
  have i: "includes_js ?c (str ''function createObject'')"
    by (simp add: str_def char_eq_def)
  have v: "validateCode ?c = \<lparr>valid = True, error = None\<rparr>"
    by (simp add: validateCode_fired f i)
  have "take 1 (snd (executeThreeJSCode eng globals THREE ?c)) = [NewFunction (str ''THREE'') (function_body ?c)]"
    by (simp add: executeThreeJSCode_def v Let_def split: sum.splits jsvalue.splits)
  with v show ?thesis
    by (intro conjI)
qed

end
